theory Spec2Isabelle
  imports Main "HOL-Library.Word"
begin

unbundle bit_operations_syntax

section \<open>The bit-reversal self-test of sw/helloworld.c\<close>

text \<open>
  The program drives a memory-mapped bit-reversal peripheral: it pushes the indices
  \<open>0 .. N-1\<close> into the register \<open>IN\<close>, polls \<open>STAT\<close>, pops \<open>N\<close> words
  from \<open>OUT\<close> and compares each with the software reference \<open>reverse_bits_k\<close>.
  C's \<open>uint32_t\<close> is \<open>32 word\<close>: \<open>+\<close> and \<open>-\<close> wrap around,
  \<open>push_bit\<close> is \<open><<\<close>, \<open>drop_bit\<close> is the logical \<open>>>\<close>.
\<close>

type_synonym u32 = "32 word"

subsection \<open>Configuration constants\<close>

text \<open>\<open>#define K 10u\<close> and \<open>#define N (1u << K)\<close>.\<close>

definition K :: nat where
  "K = 10"

definition N :: u32 where
  "N = push_bit K 1"

subsection \<open>Integer square root\<close>

text \<open>The first loop of \<open>isqrt\<close>: \<open>while (bit > n) bit >>= 2;\<close>\<close>

function isqrt_shrink :: "u32 \<Rightarrow> u32 \<Rightarrow> u32" where
  "isqrt_shrink n bitv = (if bitv > n then isqrt_shrink n (drop_bit 2 bitv) else bitv)"
  by pat_completeness auto
termination
proof (relation "measure (\<lambda>(n, bitv). unat bitv)")
  show "wf (measure (\<lambda>(n :: u32, bitv :: u32). unat bitv))"
    by simp
next
  fix n bitv :: u32
  assume "n < bitv"
  then have "0 < unat bitv"
    by (simp add: word_less_nat_alt)
  then have "unat bitv div 4 < unat bitv"
    by simp
  then show "((n, drop_bit 2 bitv), (n, bitv)) \<in> measure (\<lambda>(n, bitv). unat bitv)"
    by (simp add: drop_bit_eq_div unat_div_distrib)
qed

text \<open>
  The second loop of \<open>isqrt\<close>: \<open>while (bit) { if (n >= res + bit) { n -= res + bit;
  res = (res >> 1) + bit; } else res >>= 1; bit >>= 2; }\<close>, returning \<open>res\<close>.
  The C variable \<open>bit\<close> is \<open>bitv\<close> here.
\<close>

function isqrt_loop :: "u32 \<Rightarrow> u32 \<Rightarrow> u32 \<Rightarrow> u32" where
  "isqrt_loop n res bitv =
     (if bitv \<noteq> 0 then
        (if n \<ge> res + bitv
         then isqrt_loop (n - (res + bitv)) (drop_bit 1 res + bitv) (drop_bit 2 bitv)
         else isqrt_loop n (drop_bit 1 res) (drop_bit 2 bitv))
      else res)"
  by pat_completeness auto
termination
proof (relation "measure (\<lambda>(n, res, bitv). unat bitv)")
  show "wf (measure (\<lambda>(n :: u32, res :: u32, bitv :: u32). unat bitv))"
    by simp
next
  fix n res bitv :: u32
  assume "bitv \<noteq> 0"
  then have "0 < unat bitv"
    by (simp add: unat_gt_0)
  then have "unat bitv div 4 < unat bitv"
    by simp
  then show "((n - (res + bitv), drop_bit 1 res + bitv, drop_bit 2 bitv), (n, res, bitv))
      \<in> measure (\<lambda>(n, res, bitv). unat bitv)"
    by (simp add: drop_bit_eq_div unat_div_distrib)
next
  fix n res bitv :: u32
  assume "bitv \<noteq> 0"
  then have "0 < unat bitv"
    by (simp add: unat_gt_0)
  then have "unat bitv div 4 < unat bitv"
    by simp
  then show "((n, drop_bit 1 res, drop_bit 2 bitv), (n, res, bitv))
      \<in> measure (\<lambda>(n, res, bitv). unat bitv)"
    by (simp add: drop_bit_eq_div unat_div_distrib)
qed

text \<open>
  The loop equations unfold for ever when used as rewrite rules; the proofs below
  instantiate them by hand.
\<close>

declare isqrt_shrink.simps [simp del] isqrt_loop.simps [simp del]

text \<open>\<open>uint32_t res = 0, bit = 1u << 30;\<close> followed by the two loops.\<close>

definition isqrt :: "u32 \<Rightarrow> u32" where
  "isqrt n = isqrt_loop n 0 (isqrt_shrink n (push_bit 30 1))"

subsection \<open>The reference model\<close>

text \<open>
  \<open>reverse_bits_k\<close> reverses all 32 bits by five mask-shift-merge passes and then
  keeps the top \<open>K\<close> bits of the reversed word: \<open>return x >> (32u - K);\<close>
\<close>

definition reverse_bits_k :: "u32 \<Rightarrow> u32" where
  "reverse_bits_k x0 =
    (let x1 = push_bit 1 (x0 AND 0x55555555) OR drop_bit 1 (x0 AND 0xAAAAAAAA);
         x2 = push_bit 2 (x1 AND 0x33333333) OR drop_bit 2 (x1 AND 0xCCCCCCCC);
         x3 = push_bit 4 (x2 AND 0x0F0F0F0F) OR drop_bit 4 (x2 AND 0xF0F0F0F0);
         x4 = push_bit 8 (x3 AND 0x00FF00FF) OR drop_bit 8 (x3 AND 0xFF00FF00);
         x5 = push_bit 16 x4 OR drop_bit 16 x4
     in drop_bit (32 - K) x5)"

subsection \<open>The peripheral and the console\<close>

text \<open>
  Everything the driver does to the outside world is an event: a write of the register
  \<open>BITREV_IN\<close>, a read of \<open>BITREV_OUT\<close> or \<open>BITREV_STAT\<close> with the word read,
  a call of \<open>printf\<close> with its format string and its arguments, a call of
  \<open>uart_write_flush\<close>.
\<close>

datatype event =
    WriteIN u32
  | ReadOUT u32
  | ReadSTAT u32
  | Printf string "u32 list"
  | UartWriteFlush

text \<open>
  The three registers are volatile: a read returns what the device presents at that
  moment and may change the device (a read of \<open>OUT\<close> consumes a word). The device
  is a state machine over a state \<open>'h\<close>, given by its reaction to each access.
\<close>

record 'h bitrev_hw =
  on_write_IN :: "u32 \<Rightarrow> 'h \<Rightarrow> 'h"
  on_read_OUT :: "'h \<Rightarrow> u32 \<times> 'h"
  on_read_STAT :: "'h \<Rightarrow> u32 \<times> 'h"

text \<open>The world the driver runs in: the device state and the events so far, oldest first.\<close>

record 'h world =
  dev :: 'h
  trace :: "event list"

definition init_world :: "'h \<Rightarrow> 'h world" where
  "init_world h = \<lparr>dev = h, trace = []\<rparr>"

text \<open>\<open>BITREV_IN = v;\<close>\<close>

definition write_BITREV_IN :: "'h bitrev_hw \<Rightarrow> u32 \<Rightarrow> 'h world \<Rightarrow> 'h world" where
  "write_BITREV_IN hw v w =
     w\<lparr>dev := on_write_IN hw v (dev w), trace := trace w @ [WriteIN v]\<rparr>"

text \<open>An evaluation of \<open>BITREV_OUT\<close>.\<close>

definition read_BITREV_OUT :: "'h bitrev_hw \<Rightarrow> 'h world \<Rightarrow> u32 \<times> 'h world" where
  "read_BITREV_OUT hw w =
     (case on_read_OUT hw (dev w) of
        (v, h) \<Rightarrow> (v, w\<lparr>dev := h, trace := trace w @ [ReadOUT v]\<rparr>))"

text \<open>An evaluation of \<open>BITREV_STAT\<close>.\<close>

definition read_BITREV_STAT :: "'h bitrev_hw \<Rightarrow> 'h world \<Rightarrow> u32 \<times> 'h world" where
  "read_BITREV_STAT hw w =
     (case on_read_STAT hw (dev w) of
        (v, h) \<Rightarrow> (v, w\<lparr>dev := h, trace := trace w @ [ReadSTAT v]\<rparr>))"

text \<open>
  Modelled from the spec: \<open>printf\<close> (print.h) and \<open>uart_write_flush\<close> (uart.h) are
  called by the driver and are not among the sources. The spec has the console as an
  opaque sink of text that is flushed explicitly, so a call adds its record to the trace
  (for \<open>printf\<close> the format string and the arguments as passed) and does nothing
  else.
\<close>

definition printf :: "string \<Rightarrow> u32 list \<Rightarrow> 'h world \<Rightarrow> 'h world" where
  "printf fmt args w = w\<lparr>trace := trace w @ [Printf fmt args]\<rparr>"

definition uart_write_flush :: "'h world \<Rightarrow> 'h world" where
  "uart_write_flush w = w\<lparr>trace := trace w @ [UartWriteFlush]\<rparr>"

text \<open>
  The format strings of \<open>bitrev_selftest\<close>. The first ends in the three bytes of the
  UTF-8 ellipsis and a newline.
\<close>

definition banner_fmt :: string where
  "banner_fmt = ''Bit-reversal self-test'' @ [CHR 0xE2, CHR 0x80, CHR 0xA6, CHR 0x0A]"

definition mismatch_fmt :: string where
  "mismatch_fmt = ''Mismatch @%u: got %u, exp %u'' @ [CHR 0x0A]"

definition passed_fmt :: string where
  "passed_fmt = ''Bit-reversal test PASSED for %u-point frame'' @ [CHR 0x0A]"

definition failed_fmt :: string where
  "failed_fmt = ''Bit-reversal test FAILED (%u errors)'' @ [CHR 0x0A]"

subsection \<open>The self-test driver\<close>

text \<open>
  A run either returns or is still spinning in the busy-wait when the observation
  ends. \<open>Spins\<close> carries the world at that moment, so the events of a run that never
  returns can be inspected as far as one cares to look.
\<close>

datatype ('a, 'w) outcome = Returns 'a 'w | Spins 'w

fun world_of :: "('a, 'w) outcome \<Rightarrow> 'w" where
  "world_of (Returns a w) = w"
| "world_of (Spins w) = w"

text \<open>
  \<open>while ((BITREV_STAT & 1u) == 0) ;\<close> The loop has no bound in the source. The
  model observes at most \<open>fuel\<close> reads of \<open>STAT\<close>: it returns as soon as a read has
  bit 0 set, and reports \<open>Spins\<close> when \<open>fuel\<close> reads have all had it clear.
\<close>

fun wait_valid :: "nat \<Rightarrow> 'h bitrev_hw \<Rightarrow> 'h world \<Rightarrow> (unit, 'h world) outcome" where
  "wait_valid 0 hw w = Spins w"
| "wait_valid (Suc fuel) hw w =
     (case read_BITREV_STAT hw w of
        (s, w') \<Rightarrow> if s AND 1 = 0 then wait_valid fuel hw w' else Returns () w')"

text \<open>\<open>for (uint32_t i = 0; i < N; ++i) BITREV_IN = i;\<close> from index \<open>i\<close> on.\<close>

function push_loop :: "'h bitrev_hw \<Rightarrow> u32 \<Rightarrow> 'h world \<Rightarrow> 'h world" where
  "push_loop hw i w =
     (if i < N then push_loop hw (i + 1) (write_BITREV_IN hw i w) else w)"
  by pat_completeness auto
termination
proof (relation "measure (\<lambda>(hw, i, w). unat N - unat i)")
  show "wf (measure (\<lambda>(hw :: 'h bitrev_hw, i :: u32, w :: 'h world). unat N - unat i))"
    by simp
next
  fix hw :: "'h bitrev_hw" and i :: u32 and w :: "'h world"
  assume "i < N"
  then have "unat i < 1024"
    by (simp add: word_less_nat_alt N_def K_def)
  then have "unat (i + 1) = unat i + 1"
    by (simp add: unat_word_ariths)
  with \<open>unat i < 1024\<close>
  show "((hw, i + 1, write_BITREV_IN hw i w), (hw, i, w))
      \<in> measure (\<lambda>(hw, i, w). unat N - unat i)"
    by (simp add: N_def K_def)
qed

text \<open>
  The second loop of \<open>bitrev_selftest\<close>, from \<open>i\<close> and \<open>errors\<close> on:
  wait for valid, read \<open>OUT\<close> once, compare with \<open>reverse_bits_k i\<close>, on a mismatch
  print the diagnostic and count it, then go on with \<open>i + 1\<close>.
\<close>

function pull_loop ::
  "nat \<Rightarrow> 'h bitrev_hw \<Rightarrow> u32 \<Rightarrow> u32 \<Rightarrow> 'h world \<Rightarrow> (u32, 'h world) outcome" where
  "pull_loop fuel hw i errors w =
     (if i < N then
        (case wait_valid fuel hw w of
           Spins w1 \<Rightarrow> Spins w1
         | Returns u w1 \<Rightarrow>
             (case read_BITREV_OUT hw w1 of
                (sample, w2) \<Rightarrow>
                  (let expect = reverse_bits_k i in
                   if sample \<noteq> expect
                   then pull_loop fuel hw (i + 1) (errors + 1)
                          (printf mismatch_fmt [i, sample, expect] w2)
                   else pull_loop fuel hw (i + 1) errors w2)))
      else Returns errors w)"
  by pat_completeness auto
termination
proof (relation "measure (\<lambda>(fuel, hw, i, errors, w). unat N - unat i)")
  show "wf (measure (\<lambda>(fuel :: nat, hw :: 'h bitrev_hw, i :: u32, errors :: u32,
      w :: 'h world). unat N - unat i))"
    by simp
next
  fix fuel :: nat and hw :: "'h bitrev_hw" and i errors sample expect :: u32
    and w w2 :: "'h world"
  assume "i < N"
  then have "unat i < 1024"
    by (simp add: word_less_nat_alt N_def K_def)
  then have "unat (i + 1) = unat i + 1"
    by (simp add: unat_word_ariths)
  with \<open>unat i < 1024\<close>
  show "((fuel, hw, i + 1, errors + 1, printf mismatch_fmt [i, sample, expect] w2),
      (fuel, hw, i, errors, w)) \<in> measure (\<lambda>(fuel, hw, i, errors, w). unat N - unat i)"
    by (simp add: N_def K_def)
next
  fix fuel :: nat and hw :: "'h bitrev_hw" and i errors :: u32 and w w2 :: "'h world"
  assume "i < N"
  then have "unat i < 1024"
    by (simp add: word_less_nat_alt N_def K_def)
  then have "unat (i + 1) = unat i + 1"
    by (simp add: unat_word_ariths)
  with \<open>unat i < 1024\<close>
  show "((fuel, hw, i + 1, errors, w2), (fuel, hw, i, errors, w))
      \<in> measure (\<lambda>(fuel, hw, i, errors, w). unat N - unat i)"
    by (simp add: N_def K_def)
qed

declare push_loop.simps [simp del] pull_loop.simps [simp del]

text \<open>
  \<open>bitrev_selftest\<close>: the banner, the push loop, the pull loop with \<open>errors = 0\<close>,
  the verdict and the flush.
\<close>

definition bitrev_selftest ::
  "nat \<Rightarrow> 'h bitrev_hw \<Rightarrow> 'h world \<Rightarrow> (unit, 'h world) outcome" where
  "bitrev_selftest fuel hw w0 =
     (let w1 = printf banner_fmt [] w0;
          w2 = push_loop hw 0 w1
      in case pull_loop fuel hw 0 0 w2 of
           Spins w3 \<Rightarrow> Spins w3
         | Returns errors w3 \<Rightarrow>
             (let w4 = (if errors = 0 then printf passed_fmt [N] w3
                        else printf failed_fmt [errors] w3)
              in Returns () (uart_write_flush w4)))"

text \<open>
  The last part of \<open>main\<close> (section 2, the bit-reversal verification): the call of
  \<open>bitrev_selftest\<close> and \<open>return 0;\<close>. The peripheral demos before it call drivers
  (uart, gpio, timer) that are not part of this file.
\<close>

definition main_bitrev_section ::
  "nat \<Rightarrow> 'h bitrev_hw \<Rightarrow> 'h world \<Rightarrow> (int, 'h world) outcome" where
  "main_bitrev_section fuel hw w =
     (case bitrev_selftest fuel hw w of
        Spins w' \<Rightarrow> Spins w'
      | Returns u w' \<Rightarrow> Returns 0 w')"

subsection \<open>A hardware output model\<close>

text \<open>
  The device seen from the driver: \<open>out i\<close> is the \<open>i\<close>-th word popped from \<open>OUT\<close>
  and \<open>stat i j\<close> is what the \<open>j\<close>-th read of \<open>STAT\<close> returns while the driver
  waits for that word. The state counts the pops and the polls since the last pop; it
  starts at \<open>(0, 0)\<close>. Writes to \<open>IN\<close> leave it alone: what the device makes of
  the frame is in \<open>out\<close>.
\<close>

definition hw_model :: "(nat \<Rightarrow> nat \<Rightarrow> u32) \<Rightarrow> (nat \<Rightarrow> u32) \<Rightarrow> (nat \<times> nat) bitrev_hw" where
  "hw_model stat out =
     \<lparr>on_write_IN = (\<lambda>v h. h),
      on_read_OUT = (\<lambda>(i, j). (out i, (Suc i, 0))),
      on_read_STAT = (\<lambda>(i, j). (stat i j, (i, Suc j)))\<rparr>"

subsection \<open>Vocabulary for traces\<close>

fun is_WriteIN :: "event \<Rightarrow> bool" where
  "is_WriteIN (WriteIN v) = True"
| "is_WriteIN e = False"

fun is_ReadOUT :: "event \<Rightarrow> bool" where
  "is_ReadOUT (ReadOUT v) = True"
| "is_ReadOUT e = False"

fun is_ReadSTAT :: "event \<Rightarrow> bool" where
  "is_ReadSTAT (ReadSTAT v) = True"
| "is_ReadSTAT e = False"

fun is_Printf :: "event \<Rightarrow> bool" where
  "is_Printf (Printf fmt args) = True"
| "is_Printf e = False"

text \<open>A read of \<open>STAT\<close> that showed bit 0 set.\<close>

fun is_ready :: "event \<Rightarrow> bool" where
  "is_ready (ReadSTAT s) = (s AND 1 \<noteq> 0)"
| "is_ready e = False"

text \<open>The index \<open>i\<close> is a mismatch of the output model \<open>out\<close>.\<close>

definition mismatch :: "(nat \<Rightarrow> u32) \<Rightarrow> nat \<Rightarrow> bool" where
  "mismatch out i = (out i \<noteq> reverse_bits_k (of_nat i))"

text \<open>The diagnostic line of index \<open>i\<close>: index, got, expected.\<close>

definition diagnostic :: "(nat \<Rightarrow> u32) \<Rightarrow> nat \<Rightarrow> event" where
  "diagnostic out i = Printf mismatch_fmt [of_nat i, out i, reverse_bits_k (of_nat i)]"

text \<open>The values written to \<open>IN\<close>, oldest first.\<close>

fun IN_writes :: "event list \<Rightarrow> u32 list" where
  "IN_writes [] = []"
| "IN_writes (WriteIN v # t) = v # IN_writes t"
| "IN_writes (e # t) = IN_writes t"

text \<open>A verdict line: a \<open>printf\<close> with the PASSED or the FAILED format.\<close>

fun is_verdict :: "event \<Rightarrow> bool" where
  "is_verdict (Printf fmt args) = (fmt = passed_fmt \<or> fmt = failed_fmt)"
| "is_verdict e = False"

text \<open>
  What one round of the pull loop adds to the trace at index \<open>k\<close>, the polls left
  out: the pop, and the diagnostic when the word is wrong.
\<close>

definition pull_events :: "(nat \<Rightarrow> u32) \<Rightarrow> nat \<Rightarrow> event list" where
  "pull_events out k = ReadOUT (out k) # (if mismatch out k then [diagnostic out k] else [])"

text \<open>The verdict line for the output model \<open>out\<close>.\<close>

definition verdict :: "(nat \<Rightarrow> u32) \<Rightarrow> event" where
  "verdict out =
     (let m = length (filter (mismatch out) [0..<1024])
      in if m = 0 then Printf passed_fmt [1024] else Printf failed_fmt [of_nat m])"

text \<open>
  A monitor for the ready/pop handshake, run over a trace. It is \<open>Armed\<close> right
  after a read of \<open>STAT\<close> that showed the ready bit, and only then may \<open>OUT\<close> be
  read; once armed, the very next event has to be that read of \<open>OUT\<close>.
\<close>

datatype handshake = Idle | Armed | Violated

fun handshake_step :: "handshake \<Rightarrow> event \<Rightarrow> handshake" where
  "handshake_step Violated e = Violated"
| "handshake_step Armed e = (if is_ReadOUT e then Idle else Violated)"
| "handshake_step Idle e =
     (if is_ReadOUT e then Violated else if is_ready e then Armed else Idle)"

section \<open>The reference model reverses the low K bits\<close>

lemma bit_times_two:
  "bit (x * 2 :: u32) n \<longleftrightarrow> 0 < n \<and> n < 32 \<and> bit x (n - 1)"
  using bit_push_bit_iff [of 1 x n] by (auto simp: possible_bit_word)

lemma less_ten_cases:
  fixes j :: nat
  assumes "j < 10"
  shows "j \<in> {0, 1, 2, 3, 4, 5, 6, 7, 8, 9}"
  using assms by simp arith

text \<open>
  Bit \<open>j\<close> of the result, for any 32-bit argument: below position 10 it is bit
  \<open>9 - j\<close> of the argument, from position 10 on it is clear.
\<close>

lemma bit_reverse_bits_k:
  "bit (reverse_bits_k x) j \<longleftrightarrow> j < 10 \<and> bit x (9 - j)"
proof (cases "j < 10")
  case True
  from less_ten_cases [OF True] show ?thesis
    unfolding reverse_bits_k_def K_def Let_def
    by (elim insertE emptyE) (simp_all add: bit_simps bit_times_two)
next
  case False
  then have "\<not> 22 + j < 32"
    by simp
  moreover have "\<exists>y. reverse_bits_k x = drop_bit (32 - K) y"
    unfolding reverse_bits_k_def Let_def by (rule exI) (rule refl)
  then obtain y where "reverse_bits_k x = drop_bit 22 y"
    unfolding K_def by auto
  ultimately have "\<not> bit (reverse_bits_k x) j"
    by (auto simp: bit_drop_bit_eq dest: bit_imp_le_length)
  with False show ?thesis
    by simp
qed

lemma take_bit_ten_iff: "take_bit 10 x = x \<longleftrightarrow> x < 2 ^ K" for x :: u32
  using mask_eq_iff_w2p [of 10 x] by (simp add: take_bit_eq_mask word_size K_def)

lemma reverse_bits_k_less: "reverse_bits_k x < 2 ^ K"
proof -
  have "take_bit 10 (reverse_bits_k x) = reverse_bits_k x"
    by (rule bit_word_eqI) (auto simp: bit_take_bit_iff bit_reverse_bits_k)
  then show ?thesis
    by (simp add: take_bit_ten_iff)
qed

lemma reverse_bits_k_take_bit: "reverse_bits_k (take_bit 10 x) = reverse_bits_k x"
  by (rule bit_word_eqI) (auto simp: bit_take_bit_iff bit_reverse_bits_k)

lemma reverse_bits_k_twice:
  assumes "x < 2 ^ K"
  shows "reverse_bits_k (reverse_bits_k x) = x"
proof -
  from assms have x: "take_bit 10 x = x"
    by (simp add: take_bit_ten_iff)
  have "reverse_bits_k (reverse_bits_k x) = take_bit 10 x"
    by (rule bit_word_eqI) (auto simp: bit_take_bit_iff bit_reverse_bits_k)
  with x show ?thesis
    by simp
qed

text \<open>
  Claim C2. For every \<open>x\<close> below \<open>2 ^ K\<close>, with \<open>K = 10\<close>, bit \<open>j\<close> of
  \<open>reverse_bits_k x\<close> is bit \<open>K - 1 - j\<close> of \<open>x\<close> for every \<open>j < K\<close>, and every
  bit of the result at position \<open>K\<close> or above is clear; \<open>reverse_bits_k 1 = 512\<close>
  and \<open>reverse_bits_k 3 = 768\<close>.
\<close>

theorem reverse_bits_k_reverses:
  assumes "x < 2 ^ K"
  shows "(\<forall>j. bit (reverse_bits_k x) j \<longleftrightarrow> j < K \<and> bit x (K - 1 - j))
     \<and> reverse_bits_k 1 = 512 \<and> reverse_bits_k 3 = 768"
proof -
  have "reverse_bits_k 1 = 512" "reverse_bits_k 3 = 768"
    by (simp_all add: reverse_bits_k_def K_def)
  then show ?thesis
    by (simp add: bit_reverse_bits_k K_def)
qed

theorem reverse_bits_k_reverses_witness:
  "(3 :: u32) < 2 ^ K
     \<and> (\<forall>j. bit (reverse_bits_k 3) j \<longleftrightarrow> j < K \<and> bit (3 :: u32) (K - 1 - j))
     \<and> reverse_bits_k 1 = 512 \<and> reverse_bits_k 3 = 768"
proof -
  have h: "(3 :: u32) < 2 ^ K"
    by (simp add: K_def)
  from reverse_bits_k_reverses [OF h] h show ?thesis
    by blast
qed

text \<open>
  Claim C7. For every \<open>x\<close> below \<open>2 ^ K\<close>, \<open>reverse_bits_k (reverse_bits_k x) = x\<close>;
  so \<open>reverse_bits_k\<close> is a bijection of the values below \<open>2 ^ K\<close> onto themselves.
\<close>

theorem reverse_bits_k_involution:
  "(x < 2 ^ K \<longrightarrow> reverse_bits_k (reverse_bits_k x) = x)
     \<and> bij_betw reverse_bits_k {y. y < 2 ^ K} {y. y < 2 ^ K}"
proof -
  have "bij_betw reverse_bits_k {y. y < 2 ^ K} {y. y < 2 ^ K}"
    by (rule bij_betw_byWitness [where f' = reverse_bits_k])
      (auto simp: reverse_bits_k_twice reverse_bits_k_less)
  then show ?thesis
    by (simp add: reverse_bits_k_twice)
qed

theorem reverse_bits_k_involution_witness:
  "(3 :: u32) < 2 ^ K \<and> reverse_bits_k (reverse_bits_k 3) = 3
     \<and> bij_betw reverse_bits_k {y. y < 2 ^ K} {y. y < 2 ^ K}"
proof -
  have h: "(3 :: u32) < 2 ^ K"
    by (simp add: K_def)
  with reverse_bits_k_involution [of 3] show ?thesis
    by blast
qed

text \<open>
  Claim C8. For every 32-bit \<open>x\<close>, whatever its bits at position \<open>K\<close> and above,
  \<open>reverse_bits_k x = reverse_bits_k (x mod 2 ^ K)\<close>, and the result is below
  \<open>2 ^ K\<close>.
\<close>

theorem reverse_bits_k_ignores_high_bits:
  "reverse_bits_k x = reverse_bits_k (x mod 2 ^ K) \<and> reverse_bits_k x < 2 ^ K"
  using reverse_bits_k_take_bit [of x] reverse_bits_k_less [of x]
  by (simp add: take_bit_eq_mod K_def)

section \<open>The integer square root\<close>

text \<open>
  Throughout the second loop \<open>bitv\<close> is a power of four or zero, \<open>res\<close> is the
  root found so far times the square root of \<open>4 * bitv\<close>, and \<open>n\<close> is what is
  left of the argument after subtracting the square of that root. The invariants are
  stated on \<open>nat\<close>, with \<open>2 ^ m\<close> the square root of \<open>4 * bitv\<close>
  (and \<open>m = 0\<close> when \<open>bitv = 0\<close>); \<open>res + bitv\<close> never wraps around.
\<close>

lemma quarter_square: "(2 ^ m) ^ 2 div 4 = (2 ^ m div 2 :: nat) ^ 2"
  by (cases m) (simp_all add: power2_eq_square)

lemma half_square_le: "m \<le> 16 \<Longrightarrow> (2 ^ m div 2 :: nat) ^ 2 \<le> 2 ^ 30"
proof (cases m)
  case 0
  then show ?thesis by simp
next
  case (Suc k)
  assume "m \<le> 16"
  with Suc have "k \<le> 15" by simp
  then have "(2 :: nat) ^ (k + k) \<le> 2 ^ 30"
    by (intro power_increasing) simp_all
  with Suc show ?thesis
    by (simp add: power_add power2_eq_square)
qed

lemma isqrt_shrink_inv:
  "m \<le> 16 \<Longrightarrow> unat bitv = (2 ^ m div 2) ^ 2 \<Longrightarrow> unat n < (2 ^ m) ^ 2 \<Longrightarrow>
   \<exists>m'\<le>16. unat (isqrt_shrink n bitv) = (2 ^ m' div 2) ^ 2 \<and> unat n < (2 ^ m') ^ 2"
proof (induction m arbitrary: bitv)
  case 0
  then have "unat bitv = 0" by simp
  then have "\<not> n < bitv" by (simp add: word_less_nat_alt)
  then have "isqrt_shrink n bitv = bitv" by (simp add: isqrt_shrink.simps [of n bitv])
  with 0 show ?case by (intro exI [of _ 0]) simp
next
  case (Suc m)
  show ?case
  proof (cases "n < bitv")
    case True
    with Suc.prems have lt: "unat n < (2 ^ m) ^ 2"
      by (simp add: word_less_nat_alt)
    have "unat (drop_bit 2 bitv) = unat bitv div 4"
      by (simp add: drop_bit_eq_div unat_div_distrib)
    with Suc.prems have "unat (drop_bit 2 bitv) = (2 ^ m div 2) ^ 2"
      using quarter_square [of m] by simp
    with Suc.IH [of "drop_bit 2 bitv"] Suc.prems lt
    have "\<exists>m'\<le>16. unat (isqrt_shrink n (drop_bit 2 bitv)) = (2 ^ m' div 2) ^ 2
        \<and> unat n < (2 ^ m') ^ 2"
      by simp
    moreover from True have "isqrt_shrink n bitv = isqrt_shrink n (drop_bit 2 bitv)"
      by (simp add: isqrt_shrink.simps [of n bitv])
    ultimately show ?thesis by simp
  next
    case False
    then have "isqrt_shrink n bitv = bitv" by (simp add: isqrt_shrink.simps [of n bitv])
    with Suc.prems show ?thesis by (intro exI [of _ "Suc m"]) simp
  qed
qed

lemma isqrt_loop_inv:
  "m \<le> 16 \<Longrightarrow> unat bitv = (2 ^ m div 2) ^ 2 \<Longrightarrow> unat res = r * 2 ^ m \<Longrightarrow>
   unat n + r ^ 2 = n0 \<Longrightarrow> n0 < (r + 2 ^ m) ^ 2 \<Longrightarrow> unat res + unat bitv < 2 ^ 32 \<Longrightarrow>
   (unat (isqrt_loop n res bitv)) ^ 2 \<le> n0 \<and> n0 < (unat (isqrt_loop n res bitv) + 1) ^ 2"
proof (induction m arbitrary: n res bitv r)
  case 0
  then have "unat bitv = 0" by simp
  then have "bitv = 0" by (simp add: unat_eq_0)
  then have "isqrt_loop n res bitv = res" by (simp add: isqrt_loop.simps [of n res 0])
  with 0 show ?case by auto
next
  case (Suc m)
  define s :: nat where "s = 2 ^ m"
  from Suc.prems have B: "unat bitv = s ^ 2" and R: "unat res = 2 * r * s"
    by (simp_all add: s_def)
  have "0 < s" by (simp add: s_def)
  with B have "bitv \<noteq> 0" by auto
  from Suc.prems have m: "m \<le> 16" by simp
  from half_square_le [of "Suc m"] Suc.prems have Ble: "unat bitv \<le> 2 ^ 30"
    by simp
  from Suc.prems have sum: "unat (res + bitv) = unat res + unat bitv"
    by (simp add: unat_add_lem [THEN iffD1])
  have B': "unat (drop_bit 2 bitv) = (2 ^ m div 2) ^ 2"
    using quarter_square [of m] B by (simp add: drop_bit_eq_div unat_div_distrib s_def)
  have Bq: "unat (drop_bit 2 bitv) = unat bitv div 4"
    by (simp add: drop_bit_eq_div unat_div_distrib)
  have Rh: "unat (drop_bit 1 res) = r * s"
    using R by (simp add: drop_bit_eq_div unat_div_distrib)
  show ?case
  proof (cases "res + bitv \<le> n")
    case True
    then have ge: "2 * r * s + s ^ 2 \<le> unat n"
      using sum B R by (simp add: word_le_nat_alt)
    have n': "unat (n - (res + bitv)) = unat n - (2 * r * s + s ^ 2)"
      using True sum B R by (simp add: unat_sub)
    have "unat (drop_bit 1 res) + unat bitv < 2 ^ 32"
      using Suc.prems(6) Rh R by simp
    then have Rs: "unat (drop_bit 1 res + bitv) = unat (drop_bit 1 res) + unat bitv"
      using unat_add_lem [of "drop_bit 1 res" bitv] by simp
    have "r * s + s ^ 2 = (r + s) * s"
      by (simp add: power2_eq_square algebra_simps)
    with Rs Rh B have R': "unat (drop_bit 1 res + bitv) = (r + s) * 2 ^ m"
      by (simp add: s_def)
    have inv: "unat (n - (res + bitv)) + (r + s) ^ 2 = n0"
      using n' ge Suc.prems(4) by (simp add: power2_sum algebra_simps)
    have ub: "n0 < (r + s + 2 ^ m) ^ 2"
      using Suc.prems(5) by (simp add: s_def mult_2 add.assoc)
    have no: "unat (drop_bit 1 res + bitv) + unat (drop_bit 2 bitv) < 2 ^ 32"
    proof -
      have "unat (drop_bit 1 res + bitv) = unat res div 2 + unat bitv"
        using Rs Rh R by simp
      with Bq Ble Suc.prems(6) show ?thesis by simp
    qed
    have "isqrt_loop n res bitv
        = isqrt_loop (n - (res + bitv)) (drop_bit 1 res + bitv) (drop_bit 2 bitv)"
      using True \<open>bitv \<noteq> 0\<close> by (simp add: isqrt_loop.simps [of n res bitv])
    with Suc.IH [OF m B' R' inv ub no] show ?thesis
      by simp
  next
    case False
    then have lt: "unat n < 2 * r * s + s ^ 2"
      using sum B R by (simp add: word_le_nat_alt)
    have R': "unat (drop_bit 1 res) = r * 2 ^ m"
      using Rh by (simp add: s_def)
    have ub: "n0 < (r + 2 ^ m) ^ 2"
      using lt Suc.prems(4) by (simp add: s_def power2_sum algebra_simps)
    have no: "unat (drop_bit 1 res) + unat (drop_bit 2 bitv) < 2 ^ 32"
    proof -
      have "unat (drop_bit 1 res) = unat res div 2"
        using Rh R by simp
      with Bq Ble Suc.prems(6) show ?thesis by simp
    qed
    have "isqrt_loop n res bitv = isqrt_loop n (drop_bit 1 res) (drop_bit 2 bitv)"
      using False \<open>bitv \<noteq> 0\<close> by (simp add: isqrt_loop.simps [of n res bitv])
    with Suc.IH [OF m B' R' Suc.prems(4) ub no] show ?thesis
      by simp
  qed
qed

text \<open>
  Claim C10. For every 32-bit \<open>n\<close>, \<open>isqrt n\<close> is the integer floor of the
  square root of \<open>n\<close>: its square is at most \<open>n\<close> and the square of its successor
  exceeds \<open>n\<close>, both read as natural numbers. The function returns for every input:
  both loops are total functions, their termination proved with the definitions.
\<close>

theorem isqrt_floor:
  "(unat (isqrt n)) ^ 2 \<le> unat n \<and> unat n < (unat (isqrt n) + 1) ^ 2"
proof -
  have "unat (push_bit 30 1 :: u32) = (2 ^ 16 div 2) ^ 2"
    by simp
  moreover have "unat n < (2 ^ 16) ^ 2"
    using unsigned_less [of n] by simp
  ultimately obtain m where m: "m \<le> 16"
    and b: "unat (isqrt_shrink n (push_bit 30 1)) = (2 ^ m div 2) ^ 2"
    and n: "unat n < (2 ^ m) ^ 2"
    using isqrt_shrink_inv [of 16 "push_bit 30 1" n] by blast
  have "unat (0 :: u32) + unat (isqrt_shrink n (push_bit 30 1)) < 2 ^ 32"
    using half_square_le [OF m] b by simp
  from isqrt_loop_inv [OF m b _ _ _ this, of 0 n "unat n"] n show ?thesis
    by (simp add: isqrt_def)
qed

section \<open>Properties of the self-test driver\<close>

lemma N_eq: "N = 1024"
  by (simp add: N_def K_def)

lemma less_N_iff: "i < N \<longleftrightarrow> unat i < 1024"
  by (simp add: N_eq word_less_nat_alt)

lemma unat_plus_one: "unat i < 1024 \<Longrightarrow> unat (i + 1) = Suc (unat i)" for i :: u32
  by (simp add: unat_word_ariths)

lemma trace_printf [simp]: "trace (printf fmt args w) = trace w @ [Printf fmt args]"
  by (simp add: printf_def)

lemma dev_printf [simp]: "dev (printf fmt args w) = dev w"
  by (simp add: printf_def)

lemma trace_uart_write_flush [simp]: "trace (uart_write_flush w) = trace w @ [UartWriteFlush]"
  by (simp add: uart_write_flush_def)

lemma trace_write_BITREV_IN [simp]:
  "trace (write_BITREV_IN hw v w) = trace w @ [WriteIN v]"
  by (simp add: write_BITREV_IN_def)

lemma read_BITREV_STAT_trace:
  "read_BITREV_STAT hw w = (s, w') \<Longrightarrow> trace w' = trace w @ [ReadSTAT s]"
  by (auto simp: read_BITREV_STAT_def split: prod.splits)

lemma read_BITREV_OUT_trace:
  "read_BITREV_OUT hw w = (v, w') \<Longrightarrow> trace w' = trace w @ [ReadOUT v]"
  by (auto simp: read_BITREV_OUT_def split: prod.splits)

lemma only_ReadSTAT:
  "list_all is_ReadSTAT t \<Longrightarrow>
     filter is_ReadOUT t = [] \<and> filter is_WriteIN t = [] \<and> filter is_Printf t = []
       \<and> filter (\<lambda>e. \<not> is_ReadSTAT e) t = []"
  by (induction t) (auto elim: is_ReadSTAT.elims)

subsection \<open>The push loop\<close>

lemma push_loop_trace:
  "trace (push_loop hw i w) = trace w @ map (\<lambda>k. WriteIN (of_nat k)) [unat i..<1024]"
proof (induction hw i w rule: push_loop.induct)
  case (1 hw i w)
  show ?case
  proof (cases "i < N")
    case True
    then have lt: "unat i < 1024"
      by (simp add: less_N_iff)
    then have "[unat i..<1024] = unat i # [unat (i + 1)..<1024]"
      by (simp add: unat_plus_one upt_conv_Cons)
    moreover have "push_loop hw i w = push_loop hw (i + 1) (write_BITREV_IN hw i w)"
      using True by (simp add: push_loop.simps [of hw i w])
    ultimately show ?thesis
      using 1 [OF True] by simp
  next
    case False
    then have "[unat i..<1024] = []"
      by (simp add: less_N_iff)
    moreover have "push_loop hw i w = w"
      using False by (simp add: push_loop.simps [of hw i w])
    ultimately show ?thesis
      by simp
  qed
qed

subsection \<open>The busy-wait\<close>

lemma wait_valid_trace:
  "\<exists>t. trace (world_of (wait_valid fuel hw w)) = trace w @ t \<and> list_all is_ReadSTAT t
     \<and> foldl handshake_step Idle t
         = (case wait_valid fuel hw w of Returns u w' \<Rightarrow> Armed | Spins w' \<Rightarrow> Idle)"
proof (induction fuel arbitrary: w)
  case 0
  show ?case by simp
next
  case (Suc fuel)
  obtain s w1 where r: "read_BITREV_STAT hw w = (s, w1)"
    by (cases "read_BITREV_STAT hw w")
  then have tr: "trace w1 = trace w @ [ReadSTAT s]"
    by (rule read_BITREV_STAT_trace)
  show ?case
  proof (cases "s AND 1 = 0")
    case True
    with r have eq: "wait_valid (Suc fuel) hw w = wait_valid fuel hw w1"
      by simp
    from Suc.IH [of w1] obtain t where
      "trace (world_of (wait_valid fuel hw w1)) = trace w1 @ t" "list_all is_ReadSTAT t"
      "foldl handshake_step Idle t
         = (case wait_valid fuel hw w1 of Returns u w' \<Rightarrow> Armed | Spins w' \<Rightarrow> Idle)"
      by blast
    with tr True eq show ?thesis
      by (intro exI [of _ "ReadSTAT s # t"]) simp
  next
    case False
    with r have "wait_valid (Suc fuel) hw w = Returns () w1"
      by simp
    with tr False show ?thesis
      by (intro exI [of _ "[ReadSTAT s]"]) simp
  qed
qed

subsection \<open>The pull loop against any device\<close>

lemma pull_loop_trace:
  "1024 - unat i = n \<Longrightarrow>
   \<exists>t. trace (world_of (pull_loop fuel hw i errors w)) = trace w @ t
     \<and> filter is_WriteIN t = []
     \<and> foldl handshake_step Idle t = Idle
     \<and> (\<forall>e' w'. pull_loop fuel hw i errors w = Returns e' w'
           \<longrightarrow> length (filter is_ReadOUT t) = n)"
proof (induction n arbitrary: i errors w)
  case 0
  then have "\<not> i < N"
    by (simp add: less_N_iff)
  then have "pull_loop fuel hw i errors w = Returns errors w"
    by (simp add: pull_loop.simps [of fuel hw i errors w])
  then show ?case
    by simp
next
  case (Suc n)
  then have lt: "unat i < 1024"
    by simp
  then have iN: "i < N"
    by (simp add: less_N_iff)
  from lt Suc.prems have next_i: "1024 - unat (i + 1) = n"
    by (simp add: unat_plus_one)
  from wait_valid_trace [of fuel hw w] obtain tw where
    tw: "trace (world_of (wait_valid fuel hw w)) = trace w @ tw" "list_all is_ReadSTAT tw"
      "foldl handshake_step Idle tw
         = (case wait_valid fuel hw w of Returns u w' \<Rightarrow> Armed | Spins w' \<Rightarrow> Idle)"
    by blast
  note tw_only = only_ReadSTAT [OF tw(2)]
  show ?case
  proof (cases "wait_valid fuel hw w")
    case (Spins w1)
    with iN have "pull_loop fuel hw i errors w = Spins w1"
      by (simp add: pull_loop.simps [of fuel hw i errors w])
    with tw tw_only Spins show ?thesis
      by (intro exI [of _ tw]) simp
  next
    case (Returns u w1)
    obtain sample w2 where r: "read_BITREV_OUT hw w1 = (sample, w2)"
      by (cases "read_BITREV_OUT hw w1")
    then have tr2: "trace w2 = trace w @ tw @ [ReadOUT sample]"
      using read_BITREV_OUT_trace [OF r] tw(1) Returns by simp
    show ?thesis
    proof (cases "sample \<noteq> reverse_bits_k i")
      case True
      define w3 where "w3 = printf mismatch_fmt [i, sample, reverse_bits_k i] w2"
      have eq: "pull_loop fuel hw i errors w = pull_loop fuel hw (i + 1) (errors + 1) w3"
        using iN Returns r True by (simp add: pull_loop.simps [of fuel hw i errors w] w3_def)
      from Suc.IH [OF next_i, of "errors + 1" w3] obtain t where
        t: "trace (world_of (pull_loop fuel hw (i + 1) (errors + 1) w3)) = trace w3 @ t"
          "filter is_WriteIN t = []" "foldl handshake_step Idle t = Idle"
          "\<forall>e' w'. pull_loop fuel hw (i + 1) (errors + 1) w3 = Returns e' w'
             \<longrightarrow> length (filter is_ReadOUT t) = n"
        by blast
      show ?thesis
        using eq t tr2 tw(3) tw_only Returns
        by (intro exI [of _ "tw @ [ReadOUT sample, Printf mismatch_fmt [i, sample, reverse_bits_k i]] @ t"])
          (simp add: w3_def)
    next
      case False
      have eq: "pull_loop fuel hw i errors w = pull_loop fuel hw (i + 1) errors w2"
        using iN Returns r False by (simp add: pull_loop.simps [of fuel hw i errors w])
      from Suc.IH [OF next_i, of errors w2] obtain t where
        t: "trace (world_of (pull_loop fuel hw (i + 1) errors w2)) = trace w2 @ t"
          "filter is_WriteIN t = []" "foldl handshake_step Idle t = Idle"
          "\<forall>e' w'. pull_loop fuel hw (i + 1) errors w2 = Returns e' w'
             \<longrightarrow> length (filter is_ReadOUT t) = n"
        by blast
      show ?thesis
        using eq t tr2 tw(3) tw_only Returns
        by (intro exI [of _ "tw @ [ReadOUT sample] @ t"]) simp
    qed
  qed
qed

subsection \<open>The whole self-test against any device\<close>

text \<open>The events of the report: the verdict and the flush.\<close>

lemma bitrev_selftest_trace:
  "\<exists>t. trace (world_of (bitrev_selftest fuel hw (init_world h)))
       = Printf banner_fmt [] # map (\<lambda>k. WriteIN (of_nat k)) [0..<1024] @ t
     \<and> filter is_WriteIN t = []
     \<and> foldl handshake_step Idle t = Idle
     \<and> (\<forall>w'. bitrev_selftest fuel hw (init_world h) = Returns () w'
           \<longrightarrow> length (filter is_ReadOUT t) = 1024)"
proof -
  define w2 where "w2 = push_loop hw 0 (printf banner_fmt [] (init_world h))"
  have tr2: "trace w2 = Printf banner_fmt [] # map (\<lambda>k. WriteIN (of_nat k)) [0..<1024]"
    by (simp add: w2_def push_loop_trace init_world_def)
  from pull_loop_trace [of 0 1024 fuel hw 0 w2] obtain t where
    t: "trace (world_of (pull_loop fuel hw 0 0 w2)) = trace w2 @ t"
      "filter is_WriteIN t = []" "foldl handshake_step Idle t = Idle"
      "\<forall>e' w'. pull_loop fuel hw 0 0 w2 = Returns e' w'
         \<longrightarrow> length (filter is_ReadOUT t) = 1024"
    by auto
  show ?thesis
  proof (cases "pull_loop fuel hw 0 0 w2")
    case (Spins w3)
    then have "bitrev_selftest fuel hw (init_world h) = Spins w3"
      by (simp add: bitrev_selftest_def Let_def w2_def)
    with t tr2 Spins show ?thesis
      by (intro exI [of _ t]) simp
  next
    case (Returns errors w3)
    define v where "v = (if errors = 0 then Printf passed_fmt [N] else Printf failed_fmt [errors])"
    have "bitrev_selftest fuel hw (init_world h)
        = Returns () (uart_write_flush (if errors = 0 then printf passed_fmt [N] w3
            else printf failed_fmt [errors] w3))"
      using Returns by (simp add: bitrev_selftest_def Let_def w2_def)
    moreover have "is_Printf v" "\<not> is_WriteIN v" "\<not> is_ReadOUT v" "\<not> is_ready v"
      by (simp_all add: v_def)
    ultimately show ?thesis
      using t tr2 Returns
      by (intro exI [of _ "t @ [v, UartWriteFlush]"]) (auto simp: v_def)
  qed
qed

subsection \<open>The driver against a hardware output model\<close>

lemma read_BITREV_STAT_model:
  "dev w = (i, j) \<Longrightarrow>
   read_BITREV_STAT (hw_model stat out) w
     = (stat i j, w\<lparr>dev := (i, Suc j), trace := trace w @ [ReadSTAT (stat i j)]\<rparr>)"
  by (simp add: read_BITREV_STAT_def hw_model_def)

lemma read_BITREV_OUT_model:
  "dev w = (i, j) \<Longrightarrow>
   read_BITREV_OUT (hw_model stat out) w
     = (out i, w\<lparr>dev := (Suc i, 0), trace := trace w @ [ReadOUT (out i)]\<rparr>)"
  by (simp add: read_BITREV_OUT_def hw_model_def)

lemma dev_write_BITREV_IN_model [simp]:
  "dev (write_BITREV_IN (hw_model stat out) v w) = dev w"
  by (simp add: write_BITREV_IN_def hw_model_def)

lemma dev_push_loop_model: "dev (push_loop (hw_model stat out) i w) = dev w"
proof (induction "hw_model stat out" i w rule: push_loop.induct)
  case (1 i w)
  show ?case
  proof (cases "i < N")
    case True
    with 1 show ?thesis
      by (simp add: push_loop.simps [of _ i w])
  next
    case False
    then show ?thesis
      by (simp add: push_loop.simps [of _ i w])
  qed
qed

lemma wait_valid_model_dev:
  "dev w = (i, j) \<Longrightarrow> fst (dev (world_of (wait_valid fuel (hw_model stat out) w))) = i"
proof (induction fuel arbitrary: w j)
  case 0
  then show ?case by simp
next
  case (Suc fuel)
  let ?w1 = "w\<lparr>dev := (i, Suc j), trace := trace w @ [ReadSTAT (stat i j)]\<rparr>"
  have "dev ?w1 = (i, Suc j)" by simp
  from Suc.IH [OF this] show ?case
    by (simp add: read_BITREV_STAT_model [OF Suc.prems])
qed

lemma wait_valid_model_returns:
  "dev w = (i, j) \<Longrightarrow> k < fuel \<Longrightarrow> stat i (j + k) AND 1 \<noteq> 0 \<Longrightarrow>
   \<exists>w'. wait_valid fuel (hw_model stat out) w = Returns () w'"
proof (induction fuel arbitrary: w j k)
  case 0
  then show ?case by simp
next
  case (Suc fuel)
  let ?w1 = "w\<lparr>dev := (i, Suc j), trace := trace w @ [ReadSTAT (stat i j)]\<rparr>"
  have d1: "dev ?w1 = (i, Suc j)" by simp
  show ?case
  proof (cases "stat i j AND 1 = 0")
    case True
    with Suc.prems obtain k' where k: "k = Suc k'"
      by (cases k) auto
    with Suc.prems have "k' < fuel" "stat i (Suc j + k') AND 1 \<noteq> 0"
      by simp_all
    from Suc.IH [OF d1 this] True show ?thesis
      by (simp add: read_BITREV_STAT_model [OF Suc.prems(1)])
  next
    case False
    then show ?thesis
      by (simp add: read_BITREV_STAT_model [OF Suc.prems(1)])
  qed
qed

lemma wait_valid_model_spins:
  "dev w = (i, j) \<Longrightarrow> \<forall>k<fuel. stat i (j + k) AND 1 = 0 \<Longrightarrow>
   \<exists>w'. wait_valid fuel (hw_model stat out) w = Spins w'"
proof (induction fuel arbitrary: w j)
  case 0
  then show ?case by simp
next
  case (Suc fuel)
  let ?w1 = "w\<lparr>dev := (i, Suc j), trace := trace w @ [ReadSTAT (stat i j)]\<rparr>"
  have d1: "dev ?w1 = (i, Suc j)" by simp
  from Suc.prems(2) have now: "stat i j AND 1 = 0"
    by (metis add.right_neutral zero_less_Suc)
  have "\<forall>k<fuel. stat i (Suc j + k) AND 1 = 0"
  proof (intro allI impI)
    fix k assume "k < fuel"
    then have "Suc k < Suc fuel" by simp
    with Suc.prems(2) have "stat i (j + Suc k) AND 1 = 0" by blast
    then show "stat i (Suc j + k) AND 1 = 0" by simp
  qed
  from Suc.IH [OF d1 this] now show ?case
    by (simp add: read_BITREV_STAT_model [OF Suc.prems(1)])
qed

text \<open>
  When every word in the range becomes ready within \<open>fuel\<close> polls, the pull loop
  returns; the events it adds, the polls left out, are the pops and the diagnostics.
\<close>

lemma pull_loop_model_returns:
  "1024 - unat i = n \<Longrightarrow> unat i \<le> 1024 \<Longrightarrow> dev w = (unat i, 0) \<Longrightarrow>
   \<forall>k. unat i \<le> k \<and> k < 1024 \<longrightarrow> (\<exists>j<fuel. stat k j AND 1 \<noteq> 0) \<Longrightarrow>
   \<exists>w' t. pull_loop fuel (hw_model stat out) i errors w
       = Returns (errors + of_nat (length (filter (mismatch out) [unat i..<1024]))) w'
     \<and> trace w' = trace w @ t
     \<and> filter (\<lambda>e. \<not> is_ReadSTAT e) t = concat (map (pull_events out) [unat i..<1024])"
proof (induction n arbitrary: i errors w)
  case 0
  then have "unat i = 1024"
    by simp
  then have "\<not> i < N" "[unat i..<1024] = []"
    by (simp_all add: less_N_iff)
  then show ?case
    by (simp add: pull_loop.simps [of fuel _ i errors w])
next
  case (Suc n)
  let ?hw = "hw_model stat out"
  from Suc.prems have lt: "unat i < 1024"
    by simp
  then have iN: "i < N"
    by (simp add: less_N_iff)
  from lt have u1: "unat (i + 1) = Suc (unat i)"
    by (rule unat_plus_one)
  from lt have upt: "[unat i..<1024] = unat i # [Suc (unat i)..<1024]"
    by (simp add: upt_conv_Cons)
  from Suc.prems(4) lt obtain j where "j < fuel" "stat (unat i) (0 + j) AND 1 \<noteq> 0"
    by auto
  with Suc.prems(3) have "\<exists>w'. wait_valid fuel ?hw w = Returns () w'"
    by (rule wait_valid_model_returns [where stat = stat and j = 0 and k = j])
  then obtain w1 where w1: "wait_valid fuel ?hw w = Returns () w1"
    by blast
  from wait_valid_model_dev [OF Suc.prems(3), of fuel stat out] w1
  have "fst (dev w1) = unat i"
    by simp
  then obtain j1 where d1: "dev w1 = (unat i, j1)"
    by (cases "dev w1") simp
  from wait_valid_trace [of fuel ?hw w] w1 obtain tw where
    tw: "trace w1 = trace w @ tw" "list_all is_ReadSTAT tw"
    by auto
  note tw_only = only_ReadSTAT [OF tw(2)]
  let ?w2 = "w1\<lparr>dev := (Suc (unat i), 0), trace := trace w1 @ [ReadOUT (out (unat i))]\<rparr>"
  have r: "read_BITREV_OUT ?hw w1 = (out (unat i), ?w2)"
    by (rule read_BITREV_OUT_model [OF d1])
  have ex: "reverse_bits_k i = reverse_bits_k (of_nat (unat i))"
    by simp
  have rest: "\<forall>k. unat (i + 1) \<le> k \<and> k < 1024 \<longrightarrow> (\<exists>j<fuel. stat k j AND 1 \<noteq> 0)"
    using Suc.prems(4) u1 by auto
  have n1: "1024 - unat (i + 1) = n" "unat (i + 1) \<le> 1024"
    using Suc.prems(1) lt u1 by simp_all
  show ?case
  proof (cases "mismatch out (unat i)")
    case True
    let ?w3 = "printf mismatch_fmt [i, out (unat i), reverse_bits_k i] ?w2"
    have eq: "pull_loop fuel ?hw i errors w = pull_loop fuel ?hw (i + 1) (errors + 1) ?w3"
      using iN w1 r True
      by (simp add: pull_loop.simps [of fuel _ i errors w] mismatch_def)
    have "dev ?w3 = (unat (i + 1), 0)"
      by (simp add: u1)
    from Suc.IH [OF n1 this rest, of "errors + 1"] obtain w' t where
      t: "pull_loop fuel ?hw (i + 1) (errors + 1) ?w3
          = Returns (errors + 1 + of_nat (length (filter (mismatch out) [unat (i + 1)..<1024]))) w'"
        "trace w' = trace ?w3 @ t"
        "filter (\<lambda>e. \<not> is_ReadSTAT e) t = concat (map (pull_events out) [unat (i + 1)..<1024])"
      by blast
    show ?thesis
      using eq t tw(1) tw_only True
      by (intro exI [of _ w'] exI [of _ "tw @ [ReadOUT (out (unat i)), diagnostic out (unat i)] @ t"])
        (simp add: upt u1 pull_events_def [of out "unat i"] diagnostic_def)
  next
    case False
    have eq: "pull_loop fuel ?hw i errors w = pull_loop fuel ?hw (i + 1) errors ?w2"
      using iN w1 r False
      by (simp add: pull_loop.simps [of fuel _ i errors w] mismatch_def)
    have "dev ?w2 = (unat (i + 1), 0)"
      by (simp add: u1)
    from Suc.IH [OF n1 this rest, of errors] obtain w' t where
      t: "pull_loop fuel ?hw (i + 1) errors ?w2
          = Returns (errors + of_nat (length (filter (mismatch out) [unat (i + 1)..<1024]))) w'"
        "trace w' = trace ?w2 @ t"
        "filter (\<lambda>e. \<not> is_ReadSTAT e) t = concat (map (pull_events out) [unat (i + 1)..<1024])"
      by blast
    show ?thesis
      using eq t tw(1) tw_only False
      by (intro exI [of _ w'] exI [of _ "tw @ [ReadOUT (out (unat i))] @ t"])
        (simp add: upt u1 pull_events_def [of out "unat i"])
  qed
qed

text \<open>When some word in the range is not ready within \<open>fuel\<close> polls, the loop spins.\<close>

lemma pull_loop_model_spins:
  "1024 - unat i = n \<Longrightarrow> dev w = (unat i, 0) \<Longrightarrow> unat i \<le> k \<Longrightarrow> k < 1024 \<Longrightarrow>
   \<forall>j<fuel. stat k j AND 1 = 0 \<Longrightarrow>
   \<exists>w'. pull_loop fuel (hw_model stat out) i errors w = Spins w'"
proof (induction n arbitrary: i errors w)
  case 0
  then show ?case by simp
next
  case (Suc n)
  let ?hw = "hw_model stat out"
  from Suc.prems have lt: "unat i < 1024"
    by simp
  then have iN: "i < N"
    by (simp add: less_N_iff)
  from lt have u1: "unat (i + 1) = Suc (unat i)"
    by (rule unat_plus_one)
  show ?case
  proof (cases "wait_valid fuel ?hw w")
    case (Spins w1)
    with iN show ?thesis
      by (simp add: pull_loop.simps [of fuel _ i errors w])
  next
    case (Returns u w1)
    have "k \<noteq> unat i"
    proof
      assume "k = unat i"
      with Suc.prems(5) have "\<forall>j<fuel. stat (unat i) (0 + j) AND 1 = 0"
        by simp
      with Suc.prems(2) have "\<exists>w'. wait_valid fuel ?hw w = Spins w'"
        by (rule wait_valid_model_spins [where stat = stat and j = 0])
      with Returns show False
        by simp
    qed
    with Suc.prems(3) u1 have k: "unat (i + 1) \<le> k"
      by simp
    from wait_valid_model_dev [OF Suc.prems(2), of fuel stat out] Returns
    have "fst (dev w1) = unat i"
      by simp
    then obtain j1 where d1: "dev w1 = (unat i, j1)"
      by (cases "dev w1") simp
    let ?w2 = "w1\<lparr>dev := (Suc (unat i), 0), trace := trace w1 @ [ReadOUT (out (unat i))]\<rparr>"
    have r: "read_BITREV_OUT ?hw w1 = (out (unat i), ?w2)"
      by (rule read_BITREV_OUT_model [OF d1])
    have n1: "1024 - unat (i + 1) = n"
      using Suc.prems(1) lt u1 by simp
    show ?thesis
    proof (cases "out (unat i) \<noteq> reverse_bits_k i")
      case True
      let ?w3 = "printf mismatch_fmt [i, out (unat i), reverse_bits_k i] ?w2"
      have eq: "pull_loop fuel ?hw i errors w = pull_loop fuel ?hw (i + 1) (errors + 1) ?w3"
        using iN Returns r True
        by (simp add: pull_loop.simps [of fuel _ i errors w])
      have "dev ?w3 = (unat (i + 1), 0)"
        by (simp add: u1)
      from Suc.IH [OF n1 this k Suc.prems(4,5), of "errors + 1"] eq show ?thesis
        by simp
    next
      case False
      have eq: "pull_loop fuel ?hw i errors w = pull_loop fuel ?hw (i + 1) errors ?w2"
        using iN Returns r False
        by (simp add: pull_loop.simps [of fuel _ i errors w])
      have "dev ?w2 = (unat (i + 1), 0)"
        by (simp add: u1)
      from Suc.IH [OF n1 this k Suc.prems(4,5), of errors] eq show ?thesis
        by simp
    qed
  qed
qed

subsection \<open>What the pull loop leaves in the trace\<close>

lemma filter_refine:
  "(\<And>e. P e \<Longrightarrow> Q e) \<Longrightarrow> filter P (filter Q t) = filter P t"
  by (induction t) auto

lemma ReadOUT_of_pull_events:
  "filter is_ReadOUT (concat (map (pull_events out) ks)) = map (\<lambda>k. ReadOUT (out k)) ks"
  by (induction ks) (simp_all add: pull_events_def diagnostic_def)

lemma Printf_of_pull_events:
  "filter is_Printf (concat (map (pull_events out) ks))
     = map (diagnostic out) (filter (mismatch out) ks)"
  by (induction ks) (simp_all add: pull_events_def diagnostic_def)

lemma length_filter_upt: "length (filter P [0..<n]) = card {i. i < n \<and> P i}"
proof -
  have "set (filter P [0..<n]) = {i. i < n \<and> P i}"
    by auto
  moreover have "distinct (filter P [0..<n])"
    by simp
  ultimately show ?thesis
    using distinct_card [of "filter P [0..<n]"] by simp
qed

lemma unat_of_nat_count: "m \<le> 1024 \<Longrightarrow> unat (of_nat m :: u32) = m"
  by (simp add: unat_of_nat)

lemma mismatches_le: "length (filter (mismatch out) [0..<1024]) \<le> 1024"
  using length_filter_le [of "mismatch out" "[0..<1024]"] by simp

text \<open>The world in which the pull loop starts: the banner printed, the frame pushed.\<close>

lemma dev_after_push:
  "dev (push_loop (hw_model stat out) 0 (printf banner_fmt [] (init_world (0, 0)))) = (unat (0 :: u32), 0)"
  by (simp add: dev_push_loop_model init_world_def)

lemma trace_after_push:
  "trace (push_loop hw 0 (printf banner_fmt [] (init_world h)))
     = Printf banner_fmt [] # map (\<lambda>k. WriteIN (of_nat k)) [0..<1024]"
  by (simp add: push_loop_trace init_world_def)

lemma pull_phase_cases:
  fixes stat out fuel
  defines "w2 \<equiv> push_loop (hw_model stat out) 0 (printf banner_fmt [] (init_world (0, 0)))"
  shows "(\<exists>k<1024. (\<forall>j<fuel. stat k j AND 1 = 0)
            \<and> (\<exists>w'. pull_loop fuel (hw_model stat out) 0 0 w2 = Spins w'))
       \<or> ((\<forall>k<1024. \<exists>j<fuel. stat k j AND 1 \<noteq> 0)
            \<and> (\<exists>w' t. pull_loop fuel (hw_model stat out) 0 0 w2
                   = Returns (of_nat (length (filter (mismatch out) [0..<1024]))) w'
                 \<and> trace w' = trace w2 @ t
                 \<and> filter (\<lambda>e. \<not> is_ReadSTAT e) t
                     = concat (map (pull_events out) [0..<1024])))"
proof (cases "\<forall>k<1024. \<exists>j<fuel. stat k j AND 1 \<noteq> 0")
  case True
  then have "\<forall>k. unat (0 :: u32) \<le> k \<and> k < 1024 \<longrightarrow> (\<exists>j<fuel. stat k j AND 1 \<noteq> 0)"
    by simp
  with pull_loop_model_returns [where i = 0 and n = 1024 and w = w2 and stat = stat
      and out = out and fuel = fuel and errors = 0]
  have "\<exists>w' t. pull_loop fuel (hw_model stat out) 0 0 w2
         = Returns (0 + of_nat (length (filter (mismatch out) [unat (0 :: u32)..<1024]))) w'
       \<and> trace w' = trace w2 @ t
       \<and> filter (\<lambda>e. \<not> is_ReadSTAT e) t
           = concat (map (pull_events out) [unat (0 :: u32)..<1024])"
    using dev_after_push [of stat out] unfolding w2_def by simp
  with True show ?thesis
    by simp
next
  case False
  then obtain k where k: "k < 1024" "\<forall>j<fuel. stat k j AND 1 = 0"
    by auto
  with pull_loop_model_spins [where i = 0 and n = 1024 and w = w2 and stat = stat
      and out = out and fuel = fuel and errors = 0 and k = k]
  have "\<exists>w'. pull_loop fuel (hw_model stat out) 0 0 w2 = Spins w'"
    using dev_after_push [of stat out] unfolding w2_def by simp
  with k show ?thesis
    by blast
qed

text \<open>
  Claim C1. For any hardware output model, when the pull loop returns, started with
  \<open>i = 0\<close> and \<open>errors = 0\<close> after the push loop, its error tally is the number of
  indices below 1024 whose popped word differs from \<open>reverse_bits_k\<close> of the index.
  The reads of \<open>OUT\<close> are the 1024 words of the model, each once and in order,
  mismatch or not.
\<close>

theorem error_tally_counts_mismatches:
  assumes "pull_loop fuel (hw_model stat out) 0 0
      (push_loop (hw_model stat out) 0 (printf banner_fmt [] (init_world (0, 0))))
    = Returns errors w"
  shows "unat errors = card {i. i < 1024 \<and> out i \<noteq> reverse_bits_k (of_nat i)}
    \<and> filter is_ReadOUT (trace w) = map (\<lambda>i. ReadOUT (out i)) [0..<1024]"
proof -
  let ?w2 = "push_loop (hw_model stat out) 0 (printf banner_fmt [] (init_world (0, 0)))"
  from pull_phase_cases [of fuel stat out] assms obtain t where
    e: "errors = of_nat (length (filter (mismatch out) [0..<1024]))"
    and t: "trace w = trace ?w2 @ t"
      "filter (\<lambda>e. \<not> is_ReadSTAT e) t = concat (map (pull_events out) [0..<1024])"
    by auto
  have "unat errors = length (filter (mismatch out) [0..<1024])"
    unfolding e by (rule unat_of_nat_count) (rule mismatches_le)
  then have count: "unat errors = card {i. i < 1024 \<and> out i \<noteq> reverse_bits_k (of_nat i)}"
    by (simp add: length_filter_upt mismatch_def)
  have "filter is_ReadOUT t = filter is_ReadOUT (filter (\<lambda>e. \<not> is_ReadSTAT e) t)"
    by (rule filter_refine [symmetric]) (auto elim: is_ReadOUT.elims)
  with t have "filter is_ReadOUT (trace w) = map (\<lambda>i. ReadOUT (out i)) [0..<1024]"
    by (simp add: trace_after_push ReadOUT_of_pull_events filter_empty_conv del: upt_Suc)
  with count show ?thesis
    by simp
qed

theorem error_tally_counts_mismatches_witness:
  "\<exists>errors w.
     pull_loop 1 (hw_model (\<lambda>i j. 1) (\<lambda>i. 0)) 0 0
       (push_loop (hw_model (\<lambda>i j. 1) (\<lambda>i. 0)) 0 (printf banner_fmt [] (init_world (0, 0))))
       = Returns errors w
     \<and> unat errors = card {i. i < 1024 \<and> (0 :: u32) \<noteq> reverse_bits_k (of_nat i)}
     \<and> filter is_ReadOUT (trace w) = map (\<lambda>i. ReadOUT 0) [0..<1024]"
proof -
  from pull_phase_cases [of 1 "\<lambda>i j. 1" "\<lambda>i. 0"] obtain errors w where
    r: "pull_loop 1 (hw_model (\<lambda>i j. 1) (\<lambda>i. 0)) 0 0
       (push_loop (hw_model (\<lambda>i j. 1) (\<lambda>i. 0)) 0 (printf banner_fmt [] (init_world (0, 0))))
       = Returns errors w"
    by auto
  from error_tally_counts_mismatches [OF r] r show ?thesis
    by blast
qed

subsection \<open>The whole self-test against a hardware output model\<close>

lemma count_zero_iff:
  "(of_nat (length (filter (mismatch out) [0..<1024])) :: u32) = 0
     \<longleftrightarrow> length (filter (mismatch out) [0..<1024]) = 0"
proof
  assume "(of_nat (length (filter (mismatch out) [0..<1024])) :: u32) = 0"
  then have "unat (of_nat (length (filter (mismatch out) [0..<1024])) :: u32) = 0"
    by (simp only: unat_0)
  then show "length (filter (mismatch out) [0..<1024]) = 0"
    by (simp only: unat_of_nat_count [OF mismatches_le])
next
  assume zero: "length (filter (mismatch out) [0..<1024]) = 0"
  show "(of_nat (length (filter (mismatch out) [0..<1024])) :: u32) = 0"
    unfolding zero by simp
qed

lemma selftest_model_cases:
  "(\<exists>k<1024. (\<forall>j<fuel. stat k j AND 1 = 0)
       \<and> (\<exists>w'. bitrev_selftest fuel (hw_model stat out) (init_world (0, 0)) = Spins w'))
   \<or> ((\<forall>k<1024. \<exists>j<fuel. stat k j AND 1 \<noteq> 0)
       \<and> (\<exists>w'. bitrev_selftest fuel (hw_model stat out) (init_world (0, 0)) = Returns () w'
             \<and> filter (\<lambda>e. \<not> is_ReadSTAT e) (trace w')
                 = Printf banner_fmt [] # map (\<lambda>k. WriteIN (of_nat k)) [0..<1024]
                     @ concat (map (pull_events out) [0..<1024])
                     @ [verdict out, UartWriteFlush]))"
proof -
  let ?w2 = "push_loop (hw_model stat out) 0 (printf banner_fmt [] (init_world (0, 0)))"
  let ?m = "length (filter (mismatch out) [0..<1024])"
  from pull_phase_cases [of fuel stat out] show ?thesis
  proof (elim disjE exE conjE)
    fix k w'
    assume "k < 1024" "\<forall>j<fuel. stat k j AND 1 = 0"
      and "pull_loop fuel (hw_model stat out) 0 0 ?w2 = Spins w'"
    then show ?thesis
      by (auto simp: bitrev_selftest_def Let_def)
  next
    fix w' t
    assume ready: "\<forall>k<1024. \<exists>j<fuel. stat k j AND 1 \<noteq> 0"
      and r: "pull_loop fuel (hw_model stat out) 0 0 ?w2 = Returns (of_nat ?m) w'"
      and tr: "trace w' = trace ?w2 @ t"
        "filter (\<lambda>e. \<not> is_ReadSTAT e) t = concat (map (pull_events out) [0..<1024])"
    let ?w4 = "if (of_nat ?m :: u32) = 0 then printf passed_fmt [N] w'
      else printf failed_fmt [of_nat ?m] w'"
    have "bitrev_selftest fuel (hw_model stat out) (init_world (0, 0))
        = Returns () (uart_write_flush ?w4)"
      using r by (simp add: bitrev_selftest_def Let_def)
    moreover have "trace (uart_write_flush ?w4) = trace w' @ [verdict out, UartWriteFlush]"
      by (simp add: verdict_def Let_def count_zero_iff N_eq del: upt_Suc)
    moreover have "\<not> is_ReadSTAT (verdict out)"
      by (simp add: verdict_def Let_def del: upt_Suc)
    ultimately show ?thesis
      using ready tr by (simp add: trace_after_push del: upt_Suc)
  qed
qed

lemma always_ready_returns:
  "\<exists>w. bitrev_selftest 1 (hw_model (\<lambda>i j. 1) out) (init_world (0, 0)) = Returns () w"
  using selftest_model_cases [of 1 "\<lambda>i j. 1" out] by auto

lemma Printf_of_selftest:
  assumes "bitrev_selftest fuel (hw_model stat out) (init_world (0, 0)) = Returns () w"
  shows "filter is_Printf (trace w)
    = Printf banner_fmt [] # map (diagnostic out) (filter (mismatch out) [0..<1024])
        @ [verdict out]"
proof -
  from selftest_model_cases [of fuel stat out] assms
  have "filter (\<lambda>e. \<not> is_ReadSTAT e) (trace w)
      = Printf banner_fmt [] # map (\<lambda>k. WriteIN (of_nat k)) [0..<1024]
          @ concat (map (pull_events out) [0..<1024]) @ [verdict out, UartWriteFlush]"
    by auto
  moreover have "filter is_Printf (trace w)
      = filter is_Printf (filter (\<lambda>e. \<not> is_ReadSTAT e) (trace w))"
    by (rule filter_refine [symmetric]) (auto elim: is_Printf.elims)
  moreover have "is_Printf (verdict out)"
    by (simp add: verdict_def Let_def del: upt_Suc)
  ultimately show ?thesis
    by (simp add: Printf_of_pull_events filter_empty_conv del: upt_Suc)
qed

lemma formats_differ:
  "banner_fmt \<noteq> passed_fmt" "banner_fmt \<noteq> failed_fmt"
  "mismatch_fmt \<noteq> passed_fmt" "mismatch_fmt \<noteq> failed_fmt"
  by (simp_all add: banner_fmt_def mismatch_fmt_def passed_fmt_def failed_fmt_def)

lemma is_verdict_verdict: "is_verdict (verdict out)"
  unfolding verdict_def Let_def by (simp del: upt_Suc)

lemma verdict_among_printfs:
  "filter is_verdict (Printf banner_fmt [] # map (diagnostic out) ks @ [verdict out])
     = [verdict out]"
proof -
  have "filter is_verdict (map (diagnostic out) ks) = []"
    by (induction ks) (simp_all add: diagnostic_def formats_differ)
  then show ?thesis
    by (simp add: formats_differ is_verdict_verdict)
qed

text \<open>
  Claim C3. For any hardware output model, a run that returns prints exactly one
  verdict: the PASSED format with the frame size 1024 when no index mismatches, the
  FAILED format with the number of mismatches otherwise. \<open>main\<close> returns 0 in both
  cases.
\<close>

theorem verdict_reports_tally:
  assumes "main_bitrev_section fuel (hw_model stat out) (init_world (0, 0)) = Returns rc w"
  shows "rc = 0
    \<and> (let m = card {i. i < 1024 \<and> out i \<noteq> reverse_bits_k (of_nat i)}
       in filter is_verdict (trace w)
            = [if m = 0 then Printf passed_fmt [1024] else Printf failed_fmt [of_nat m]])"
proof -
  from assms have rc: "rc = 0"
    and r: "bitrev_selftest fuel (hw_model stat out) (init_world (0, 0)) = Returns () w"
    by (auto simp: main_bitrev_section_def split: outcome.splits)
  have "filter is_verdict (trace w) = filter is_verdict (filter is_Printf (trace w))"
    by (rule filter_refine [symmetric]) (auto elim: is_verdict.elims)
  also have "\<dots> = [verdict out]"
    unfolding Printf_of_selftest [OF r] by (rule verdict_among_printfs)
  finally have "filter is_verdict (trace w) = [verdict out]" .
  moreover have "length (filter (mismatch out) [0..<1024])
      = card {i. i < 1024 \<and> out i \<noteq> reverse_bits_k (of_nat i)}"
    by (simp add: length_filter_upt mismatch_def)
  ultimately have "filter is_verdict (trace w)
      = [if card {i. i < 1024 \<and> out i \<noteq> reverse_bits_k (of_nat i)} = 0
         then Printf passed_fmt [1024]
         else Printf failed_fmt
           [of_nat (card {i. i < 1024 \<and> out i \<noteq> reverse_bits_k (of_nat i)})]]"
    unfolding verdict_def Let_def by (simp only:)
  with rc show ?thesis
    unfolding Let_def by (rule conjI)
qed

theorem verdict_reports_tally_witness:
  "\<exists>w. main_bitrev_section 1 (hw_model (\<lambda>i j. 1) (\<lambda>i. 0)) (init_world (0, 0)) = Returns 0 w
     \<and> (let m = card {i. i < 1024 \<and> (0 :: u32) \<noteq> reverse_bits_k (of_nat i)}
        in filter is_verdict (trace w)
             = [if m = 0 then Printf passed_fmt [1024] else Printf failed_fmt [of_nat m]])"
proof -
  from always_ready_returns [of "\<lambda>i. 0"] obtain w where
    "bitrev_selftest 1 (hw_model (\<lambda>i j. 1) (\<lambda>i. 0)) (init_world (0, 0)) = Returns () w"
    by blast
  then have r: "main_bitrev_section 1 (hw_model (\<lambda>i j. 1) (\<lambda>i. 0)) (init_world (0, 0))
      = Returns 0 w"
    by (simp add: main_bitrev_section_def)
  from verdict_reports_tally [OF r] r show ?thesis
    by blast
qed

lemma reverse_bits_k_5: "reverse_bits_k 5 = 640"
  by (simp add: reverse_bits_k_def K_def)

lemma only_mismatch:
  assumes "j < n" and "P j" and "\<forall>i<n. i \<noteq> j \<longrightarrow> \<not> P i"
  shows "filter P [0..<n] = [j]"
proof -
  from assms(1) have "[0..<n] = [0..<j] @ j # [Suc j..<n]"
    using upt_add_eq_append [of 0 j "n - j"] by (simp add: upt_conv_Cons)
  moreover have "filter P [0..<j] = []" "filter P [Suc j..<n] = []"
    using assms by (auto simp: filter_empty_conv)
  ultimately show ?thesis
    using assms(2) by simp
qed

text \<open>
  Claim C9. When the output model is wrong at exactly one index \<open>j\<close> below 1024, the
  \<open>printf\<close> calls of a run that returns are the banner, one diagnostic with the
  arguments \<open>j\<close>, the word got and the word expected, and the FAILED format with the
  count 1.
\<close>

theorem single_fault_reported:
  assumes "j < 1024" and "out j \<noteq> reverse_bits_k (of_nat j)"
    and "\<forall>i<1024. i \<noteq> j \<longrightarrow> out i = reverse_bits_k (of_nat i)"
    and "bitrev_selftest fuel (hw_model stat out) (init_world (0, 0)) = Returns () w"
  shows "filter is_Printf (trace w)
    = [Printf banner_fmt [],
       Printf mismatch_fmt [of_nat j, out j, reverse_bits_k (of_nat j)],
       Printf failed_fmt [1]]"
proof -
  have "filter (mismatch out) [0..<1024] = [j]"
    using assms(1-3) by (intro only_mismatch) (simp_all add: mismatch_def)
  then show ?thesis
    unfolding Printf_of_selftest [OF assms(4)]
    by (simp add: verdict_def diagnostic_def del: upt_Suc)
qed

theorem single_fault_reported_witness:
  "\<exists>w. bitrev_selftest 1
          (hw_model (\<lambda>i j. 1) (\<lambda>i. if i = 5 then 0 else reverse_bits_k (of_nat i)))
          (init_world (0, 0)) = Returns () w
     \<and> filter is_Printf (trace w)
         = [Printf banner_fmt [], Printf mismatch_fmt [5, 0, 640], Printf failed_fmt [1]]"
proof -
  define out :: "nat \<Rightarrow> u32" where "out = (\<lambda>i. if i = 5 then 0 else reverse_bits_k (of_nat i))"
  from always_ready_returns [of out] obtain w where
    r: "bitrev_selftest 1 (hw_model (\<lambda>i j. 1) out) (init_world (0, 0)) = Returns () w"
    by blast
  have j: "(5 :: nat) < 1024"
    by simp
  have bad: "out 5 \<noteq> reverse_bits_k (of_nat 5)"
    by (simp add: out_def reverse_bits_k_5)
  have good: "\<forall>i<1024. i \<noteq> 5 \<longrightarrow> out i = reverse_bits_k (of_nat i)"
    by (simp add: out_def)
  from single_fault_reported [OF j bad good r] r show ?thesis
    unfolding out_def by (auto simp: reverse_bits_k_5)
qed

text \<open>
  Claim C6. When for each of the 1024 words some poll of \<open>STAT\<close> shows bit 0 set,
  \<open>bitrev_selftest\<close> returns, for every sufficiently long observation. When for some
  word no poll ever shows it, the run is still spinning however long it is observed:
  the loop has no other way out.
\<close>

theorem returns_when_ready_else_spins:
  "((\<forall>i<1024. \<exists>j. stat i j AND 1 \<noteq> 0)
      \<longrightarrow> (\<exists>fuel0. \<forall>fuel\<ge>fuel0.
             \<exists>w. bitrev_selftest fuel (hw_model stat out) (init_world (0, 0)) = Returns () w))
   \<and> ((\<exists>i<1024. \<forall>j. stat i j AND 1 = 0)
      \<longrightarrow> (\<forall>fuel. \<exists>w. bitrev_selftest fuel (hw_model stat out) (init_world (0, 0)) = Spins w))"
proof (intro conjI impI)
  assume "\<forall>i<1024. \<exists>j. stat i j AND 1 \<noteq> 0"
  then have "\<exists>f. \<forall>i<1024. stat i (f i) AND 1 \<noteq> 0"
    by metis
  then obtain f where f: "\<forall>i<1024. stat i (f i) AND 1 \<noteq> 0"
    by blast
  define fuel0 where "fuel0 = Suc (Max (f ` {..<1024}))"
  have bound: "f i < fuel0" if "i < 1024" for i
  proof -
    from that have "f i \<le> Max (f ` {..<1024})"
      by (intro Max_ge) simp_all
    then show ?thesis
      by (simp add: fuel0_def)
  qed
  have "\<exists>w. bitrev_selftest fuel (hw_model stat out) (init_world (0, 0)) = Returns () w"
    if "fuel0 \<le> fuel" for fuel
  proof -
    have "\<forall>k<1024. \<exists>j<fuel. stat k j AND 1 \<noteq> 0"
      using f bound that by (meson less_le_trans)
    with selftest_model_cases [of fuel stat out] show ?thesis
      by blast
  qed
  then show "\<exists>fuel0. \<forall>fuel\<ge>fuel0.
      \<exists>w. bitrev_selftest fuel (hw_model stat out) (init_world (0, 0)) = Returns () w"
    by blast
next
  assume "\<exists>i<1024. \<forall>j. stat i j AND 1 = 0"
  then obtain i where i: "i < 1024" "\<forall>j. stat i j AND 1 = 0"
    by blast
  show "\<forall>fuel. \<exists>w. bitrev_selftest fuel (hw_model stat out) (init_world (0, 0)) = Spins w"
  proof
    fix fuel
    from i have "\<not> (\<forall>k<1024. \<exists>j<fuel. stat k j AND 1 \<noteq> 0)"
      by blast
    with selftest_model_cases [of fuel stat out]
    show "\<exists>w. bitrev_selftest fuel (hw_model stat out) (init_world (0, 0)) = Spins w"
      by blast
  qed
qed

theorem returns_when_ready_else_spins_witness:
  "(\<exists>fuel0. \<forall>fuel\<ge>fuel0.
      \<exists>w. bitrev_selftest fuel (hw_model (\<lambda>i j. 1) (\<lambda>i. 0)) (init_world (0, 0)) = Returns () w)
   \<and> (\<forall>fuel. \<exists>w. bitrev_selftest fuel (hw_model (\<lambda>i j. 0) (\<lambda>i. 0)) (init_world (0, 0)) = Spins w)"
proof -
  have "\<forall>i<1024. \<exists>j. (\<lambda>i j. 1 :: u32) i j AND 1 \<noteq> 0"
    by simp
  moreover have "\<exists>i<1024 :: nat. \<forall>j. (\<lambda>i j. 0 :: u32) i j AND 1 = 0"
    by (intro exI [of _ 0]) simp
  ultimately show ?thesis
    using returns_when_ready_else_spins [of "\<lambda>i j. 1" "\<lambda>i. 0"]
      returns_when_ready_else_spins [of "\<lambda>i j. 0" "\<lambda>i. 0"]
    by blast
qed

subsection \<open>The handshake monitor\<close>

lemma violated_absorbs: "foldl handshake_step Violated t = Violated"
  by (induction t) simp_all

lemma handshake_quiet:
  "\<forall>e\<in>set t. \<not> is_ReadOUT e \<and> \<not> is_ready e \<Longrightarrow> foldl handshake_step Idle t = Idle"
  by (induction t) simp_all

lemma armed_after_ready:
  assumes "foldl handshake_step Idle xs = Armed"
  shows "\<exists>xs' s. xs = xs' @ [ReadSTAT s] \<and> s AND 1 \<noteq> 0"
proof (cases xs rule: rev_cases)
  case Nil
  with assms show ?thesis by simp
next
  case (snoc xs' e)
  with assms have step: "handshake_step (foldl handshake_step Idle xs') e = Armed"
    by simp
  then have "is_ready e"
    by (cases "foldl handshake_step Idle xs'") (auto split: if_splits)
  then obtain s where "e = ReadSTAT s" "s AND 1 \<noteq> 0"
    by (cases e) auto
  with snoc show ?thesis by blast
qed

lemma ReadOUT_needs_armed:
  assumes "foldl handshake_step Idle (xs @ ReadOUT v # ys) = Idle"
  shows "foldl handshake_step Idle xs = Armed"
proof (cases "foldl handshake_step Idle xs")
  case Armed
  then show ?thesis .
next
  case Idle
  with assms show ?thesis by (simp add: violated_absorbs)
next
  case Violated
  with assms show ?thesis by (simp add: violated_absorbs)
qed

lemma ready_then_ReadOUT:
  assumes "foldl handshake_step Idle (xs @ ReadSTAT s # ys) = Idle" and "s AND 1 \<noteq> 0"
  shows "\<exists>v ys'. ys = ReadOUT v # ys'"
proof (cases "foldl handshake_step Idle xs")
  case Idle
  with assms have armed: "foldl handshake_step Armed ys = Idle"
    by simp
  show ?thesis
  proof (cases ys)
    case Nil
    with armed show ?thesis by simp
  next
    case (Cons e ys')
    with armed have "is_ReadOUT e"
      by (cases "is_ReadOUT e") (simp_all add: violated_absorbs)
    then obtain v where "e = ReadOUT v"
      by (cases e) auto
    with Cons show ?thesis by blast
  qed
next
  case Armed
  with assms show ?thesis by (simp add: violated_absorbs)
next
  case Violated
  with assms show ?thesis by (simp add: violated_absorbs)
qed

lemma IN_writes_append: "IN_writes (xs @ ys) = IN_writes xs @ IN_writes ys"
  by (induction xs rule: IN_writes.induct) simp_all

lemma IN_writes_map: "IN_writes (map WriteIN vs) = vs"
  by (induction vs) simp_all

lemma IN_writes_none: "filter is_WriteIN t = [] \<Longrightarrow> IN_writes t = []"
  by (induction t rule: IN_writes.induct) simp_all

lemma unat_of_nat_small: "k < 1024 \<Longrightarrow> unat (of_nat k :: u32) = k"
  by (simp add: unat_of_nat)

text \<open>
  Claim C4. In every run of \<open>bitrev_selftest\<close>, against any device and however long
  it is observed, the values written to \<open>IN\<close> are \<open>0, 1, \<dots>, 1023\<close> in this order,
  each once; the trace is the banner, then these 1024 writes, then a rest that holds no
  write to \<open>IN\<close>. So every read of \<open>OUT\<close> or \<open>STAT\<close> comes after the last write.
\<close>

theorem pushes_then_reads:
  "let t = trace (world_of (bitrev_selftest fuel hw (init_world h)))
   in map unat (IN_writes t) = [0..<1024]
      \<and> (\<exists>post. t = Printf banner_fmt [] # map WriteIN (IN_writes t) @ post
            \<and> filter is_WriteIN post = [])"
proof -
  from bitrev_selftest_trace [of fuel hw h] obtain post where
    t: "trace (world_of (bitrev_selftest fuel hw (init_world h)))
         = Printf banner_fmt [] # map (\<lambda>k. WriteIN (of_nat k)) [0..<1024] @ post"
    and post: "filter is_WriteIN post = []"
    by blast
  have "map (\<lambda>k. WriteIN (of_nat k)) [0..<1024] = map WriteIN (map of_nat [0..<1024])"
    by simp
  with t have w: "IN_writes (trace (world_of (bitrev_selftest fuel hw (init_world h))))
      = map of_nat [0..<1024]"
    using post by (simp only: IN_writes.simps IN_writes_append IN_writes_map IN_writes_none append_Nil2)
  have "map unat (map of_nat [0..<1024] :: u32 list) = map (\<lambda>k. k) [0..<1024]"
    unfolding map_map by (rule map_cong) (simp_all add: unat_of_nat_small)
  with w t post show ?thesis
    by (simp add: Let_def)
qed

text \<open>
  Claim C5. In every run of \<open>bitrev_selftest\<close>, against any device and however long
  it is observed: the event right before a read of \<open>OUT\<close> is a read of \<open>STAT\<close> with
  bit 0 set; the event right after a read of \<open>STAT\<close> with bit 0 set is a read of
  \<open>OUT\<close>; and a run that returns has read \<open>OUT\<close> 1024 times.
\<close>

theorem handshake_respected:
  "let r = bitrev_selftest fuel hw (init_world h); t = trace (world_of r)
   in (\<forall>xs v ys. t = xs @ ReadOUT v # ys
          \<longrightarrow> (\<exists>xs' s. xs = xs' @ [ReadSTAT s] \<and> s AND 1 \<noteq> 0))
      \<and> (\<forall>xs s ys. t = xs @ ReadSTAT s # ys \<and> s AND 1 \<noteq> 0
          \<longrightarrow> (\<exists>v ys'. ys = ReadOUT v # ys'))
      \<and> (\<forall>w. r = Returns () w \<longrightarrow> length (filter is_ReadOUT t) = 1024)"
proof -
  define t where "t = trace (world_of (bitrev_selftest fuel hw (init_world h)))"
  define pre where "pre = Printf banner_fmt [] # map (\<lambda>k. WriteIN (of_nat k)) [0..<1024]"
  from bitrev_selftest_trace [of fuel hw h] obtain post where
    t: "t = pre @ post"
    and post: "foldl handshake_step Idle post = Idle"
      "\<forall>w'. bitrev_selftest fuel hw (init_world h) = Returns () w'
         \<longrightarrow> length (filter is_ReadOUT post) = 1024"
    unfolding t_def pre_def by auto
  have quiet: "\<forall>e\<in>set pre. \<not> is_ReadOUT e \<and> \<not> is_ready e"
    by (auto simp: pre_def)
  then have "foldl handshake_step Idle pre = Idle"
    by (rule handshake_quiet)
  with t post have idle: "foldl handshake_step Idle t = Idle"
    by simp
  from quiet have "filter is_ReadOUT pre = []"
    by (simp add: filter_empty_conv)
  with t post have count: "\<forall>w. bitrev_selftest fuel hw (init_world h) = Returns () w
      \<longrightarrow> length (filter is_ReadOUT t) = 1024"
    by simp
  have a: "\<forall>xs v ys. t = xs @ ReadOUT v # ys
      \<longrightarrow> (\<exists>xs' s. xs = xs' @ [ReadSTAT s] \<and> s AND 1 \<noteq> 0)"
    using idle ReadOUT_needs_armed armed_after_ready by blast
  have b: "\<forall>xs s ys. t = xs @ ReadSTAT s # ys \<and> s AND 1 \<noteq> 0
      \<longrightarrow> (\<exists>v ys'. ys = ReadOUT v # ys')"
    using idle ready_then_ReadOUT by blast
  from a b count show ?thesis
    unfolding Let_def t_def by blast
qed

theorem handshake_respected_witness:
  "\<exists>w xs s v ys.
     bitrev_selftest 1 (hw_model (\<lambda>i j. 1) (\<lambda>i. 0)) (init_world (0, 0)) = Returns () w
     \<and> trace w = xs @ ReadSTAT s # ReadOUT v # ys \<and> s AND 1 \<noteq> 0
     \<and> length (filter is_ReadOUT (trace w)) = 1024"
proof -
  from always_ready_returns [of "\<lambda>i. 0"] obtain w where
    r: "bitrev_selftest 1 (hw_model (\<lambda>i j. 1) (\<lambda>i. 0)) (init_world (0, 0)) = Returns () w"
    by blast
  note h = handshake_respected [of 1 "hw_model (\<lambda>i j. 1) (\<lambda>i. 0)" "(0, 0)",
      unfolded Let_def r world_of.simps]
  from h have count: "length (filter is_ReadOUT (trace w)) = 1024"
    by blast
  then have "filter is_ReadOUT (trace w) \<noteq> []"
    by auto
  then obtain e where e: "e \<in> set (trace w)" "is_ReadOUT e"
    by (auto simp: filter_empty_conv)
  from e(2) obtain v where "e = ReadOUT v"
    by (cases e) auto
  with e(1) obtain xs ys where split: "trace w = xs @ ReadOUT v # ys"
    by (auto dest: split_list)
  with h obtain xs' s where "xs = xs' @ [ReadSTAT s]" "s AND 1 \<noteq> 0"
    by blast
  with split count r show ?thesis
    by auto
qed

end
